theory Spec2Isabelle
  imports Main
begin

text \<open>
  A model of \<^verbatim>\<open>scheduler.h\<close> of AdapterRemoval: the pool of statistics objects
  \<^verbatim>\<open>statistics_sink<T>\<close> and the base class \<^verbatim>\<open>analytical_step\<close>, both defined in
  the header, and the parts of the class \<^verbatim>\<open>scheduler\<close> that the header declares and
  the specification of the scheduler describes. The definitions come first, the
  properties after them.
\<close>

section \<open>Objects behind pointers\<close>

text \<open>
  \<^verbatim>\<open>statistics_sink<T>\<close> keeps a \<^verbatim>\<open>std::list<T*>\<close>: it stores pointers, and the
  objects live on the free store. A pointer is an address; the free store maps the
  address of every live object to its contents. The null pointer and the pointer to a
  deleted object are addresses with no live object. Reading through such a pointer is
  undefined behaviour in C++ and is an error value here.
\<close>

type_synonym addr = nat

type_synonym 'T heap = "addr \<rightharpoonup> 'T"

datatype error = Invalid_Pointer addr

section \<open>statistics_sink\<close>

text \<open>
  The class has two fields, \<^verbatim>\<open>m_sinks_lock\<close> and \<^verbatim>\<open>m_sinks\<close>. Each of
  \<^verbatim>\<open>get_sink\<close>, \<^verbatim>\<open>return_sink\<close> and \<^verbatim>\<open>finalize\<close> holds the lock from its first
  statement to its return, so the three run one at a time and each is a function from
  the state before the call to the state after it; the lock itself carries no data.
\<close>

record statistics_sink =
  m_sinks :: "addr list"

text \<open>The constructor: \<^verbatim>\<open>m_sinks()\<close>, an empty list.\<close>

definition statistics_sink_ctor :: statistics_sink where
  "statistics_sink_ctor = \<lparr>m_sinks = []\<rparr>"

text \<open>
  \<^verbatim>\<open>new_sink\<close> is pure virtual: the subclass supplies it. It is a parameter of the
  model, a function that takes the free store and returns a pointer together with the
  free store after the call. \<^verbatim>\<open>T\<close>'s \<^verbatim>\<open>operator+=\<close> is the second parameter:
  \<open>plus_eq a b\<close> is the contents of \<^verbatim>\<open>x\<close> after \<^verbatim>\<open>x += y\<close> when \<^verbatim>\<open>x\<close> held
  \<open>a\<close> and \<^verbatim>\<open>y\<close> held \<open>b\<close>.
\<close>

type_synonym 'T new_sink = "'T heap \<Rightarrow> addr \<times> 'T heap"

definition get_sink ::
  "'T new_sink \<Rightarrow> 'T heap \<Rightarrow> statistics_sink \<Rightarrow> addr \<times> 'T heap \<times> statistics_sink" where
  "get_sink new_sink h s =
     (if m_sinks s = [] then (let (ptr, h') = new_sink h in (ptr, h', s))
      else (hd (m_sinks s), h, s\<lparr>m_sinks := tl (m_sinks s)\<rparr>))"

definition return_sink :: "addr \<Rightarrow> statistics_sink \<Rightarrow> statistics_sink" where
  "return_sink ptr s = s\<lparr>m_sinks := m_sinks s @ [ptr]\<rparr>"

text \<open>
  The loop of \<^verbatim>\<open>finalize\<close>: while the list is not empty, add the object behind its
  back pointer to the result, delete that object, pop the back.
\<close>

function finalize_loop ::
  "('T \<Rightarrow> 'T \<Rightarrow> 'T) \<Rightarrow> addr \<Rightarrow> 'T heap \<Rightarrow> statistics_sink \<Rightarrow> error + ('T heap \<times> statistics_sink)" where
  "finalize_loop plus_eq result h s =
     (if m_sinks s = [] then Inr (h, s)
      else
        (case h result of
           None \<Rightarrow> Inl (Invalid_Pointer result)
         | Some a \<Rightarrow>
             (case h (last (m_sinks s)) of
                None \<Rightarrow> Inl (Invalid_Pointer (last (m_sinks s)))
              | Some b \<Rightarrow>
                  finalize_loop plus_eq result
                    ((h(result \<mapsto> plus_eq a b))(last (m_sinks s) := None))
                    (s\<lparr>m_sinks := butlast (m_sinks s)\<rparr>))))"
  by pat_completeness auto
termination
  by (relation "measure (\<lambda>(plus_eq, result, h, s). length (m_sinks s))") auto

definition finalize ::
  "'T new_sink \<Rightarrow> ('T \<Rightarrow> 'T \<Rightarrow> 'T) \<Rightarrow> 'T heap \<Rightarrow> statistics_sink
     \<Rightarrow> error + (addr \<times> 'T heap \<times> statistics_sink)" where
  "finalize new_sink plus_eq h s =
     (if m_sinks s = [] then (let (ptr, h') = new_sink h in Inr (ptr, h', s))
      else
        (let result = last (m_sinks s) in
         case finalize_loop plus_eq result h (s\<lparr>m_sinks := butlast (m_sinks s)\<rparr>) of
           Inl e \<Rightarrow> Inl e
         | Inr (h', s') \<Rightarrow> Inr (result, h', s')))"

subsection \<open>Sequences of calls on one sink\<close>

text \<open>
  What a sink has seen is the sequence of calls made on it since its constructor. Between
  two calls the rest of the program runs and may change the free store in any way (the
  threads write their statistics into the objects they hold): that is \<open>Client f\<close>. A
  run stops at the first error.
\<close>

datatype 'T sink_call =
    Get_sink
  | Return_sink addr
  | Finalize
  | Client "'T heap \<Rightarrow> 'T heap"

fun run_call ::
  "'T new_sink \<Rightarrow> ('T \<Rightarrow> 'T \<Rightarrow> 'T) \<Rightarrow> 'T sink_call \<Rightarrow> 'T heap \<times> statistics_sink
     \<Rightarrow> error + ('T heap \<times> statistics_sink)" where
  "run_call new_sink plus_eq Get_sink (h, s) =
     (let (ptr, h', s') = get_sink new_sink h s in Inr (h', s'))"
| "run_call new_sink plus_eq (Return_sink ptr) (h, s) = Inr (h, return_sink ptr s)"
| "run_call new_sink plus_eq Finalize (h, s) =
     (case finalize new_sink plus_eq h s of
        Inl e \<Rightarrow> Inl e
      | Inr (ptr, h', s') \<Rightarrow> Inr (h', s'))"
| "run_call new_sink plus_eq (Client f) (h, s) = Inr (f h, s)"

fun run_calls ::
  "'T new_sink \<Rightarrow> ('T \<Rightarrow> 'T \<Rightarrow> 'T) \<Rightarrow> 'T sink_call list \<Rightarrow> 'T heap \<times> statistics_sink
     \<Rightarrow> error + ('T heap \<times> statistics_sink)" where
  "run_calls new_sink plus_eq [] st = Inr st"
| "run_calls new_sink plus_eq (c # cs) st =
     (case run_call new_sink plus_eq c st of
        Inl e \<Rightarrow> Inl e
      | Inr st' \<Rightarrow> run_calls new_sink plus_eq cs st')"

text \<open>
  \<open>return_sinks ps\<close> is \<^verbatim>\<open>return_sink\<close> called on each pointer of \<open>ps\<close> in turn;
  \<open>get_sinks new_sink n\<close> is \<^verbatim>\<open>get_sink\<close> called \<open>n\<close> times, with the pointers it
  returned in the order of the calls.
\<close>

fun return_sinks :: "addr list \<Rightarrow> statistics_sink \<Rightarrow> statistics_sink" where
  "return_sinks [] s = s"
| "return_sinks (ptr # ptrs) s = return_sinks ptrs (return_sink ptr s)"

fun get_sinks ::
  "'T new_sink \<Rightarrow> nat \<Rightarrow> 'T heap \<Rightarrow> statistics_sink \<Rightarrow> addr list \<times> 'T heap \<times> statistics_sink" where
  "get_sinks new_sink 0 h s = ([], h, s)"
| "get_sinks new_sink (Suc n) h s =
     (let (ptr, h1, s1) = get_sink new_sink h s;
          (ptrs, h2, s2) = get_sinks new_sink n h1 s1
      in (ptr # ptrs, h2, s2))"

text \<open>
  The contents of the object a call of \<^verbatim>\<open>finalize\<close> returned, read through the
  returned pointer in the free store the call left; \<open>None\<close> when the call failed or the
  pointer holds no live object.
\<close>

definition result_value :: "error + (addr \<times> 'T heap \<times> statistics_sink) \<Rightarrow> 'T option" where
  "result_value r = (case r of Inl e \<Rightarrow> None | Inr (ptr, h, s) \<Rightarrow> h ptr)"

text \<open>
  A subclass for the examples: its \<^verbatim>\<open>new_sink\<close> constructs an object with contents
  \<open>v\<close> at the address \<open>p\<close>.
\<close>

definition new_sink_at :: "addr \<Rightarrow> 'T \<Rightarrow> 'T new_sink" where
  "new_sink_at p v h = (p, h(p \<mapsto> v))"

section \<open>analytical_step\<close>

datatype ordering = ordered | unordered

text \<open>
  The base class has two private fields. A class derived from it adds members of its own;
  they are the extension \<open>'sub\<close> of the record. Being private, the two fields of the
  base are out of reach of the code of a derived class.
\<close>

record analytical_step =
  m_step_order :: ordering
  m_file_io :: bool

text \<open>
  Modelled from the spec: the body of the constructor
  \<^verbatim>\<open>analytical_step(ordering step_order, bool file_io = false)\<close> is not in the header,
  which only declares it. The spec calls \<^verbatim>\<open>ordering()\<close> and \<^verbatim>\<open>file_io()\<close> "constant
  descriptors fixed at construction", and the header documents \<^verbatim>\<open>m_step_order\<close> as
  storing the ordering and \<^verbatim>\<open>m_file_io\<close> as true when the step involves file IO: the
  constructor stores its two arguments in the two fields. \<open>sub\<close> is what the derived
  class's constructor gives its own members.
\<close>

definition analytical_step_ctor :: "ordering \<Rightarrow> bool \<Rightarrow> 'sub \<Rightarrow> 'sub analytical_step_scheme" where
  "analytical_step_ctor step_order file_io sub =
     \<lparr>m_step_order = step_order, m_file_io = file_io, \<dots> = sub\<rparr>"

text \<open>
  The constructor called with one argument: the declaration gives the second parameter
  the default \<^verbatim>\<open>false\<close>.
\<close>

definition analytical_step_ctor_default :: "ordering \<Rightarrow> 'sub \<Rightarrow> 'sub analytical_step_scheme" where
  "analytical_step_ctor_default step_order sub = analytical_step_ctor step_order False sub"

text \<open>\<^verbatim>\<open>analytical_step::finalize\<close>, the default of the virtual function: an empty body.\<close>

definition analytical_step_finalize :: "'sub analytical_step_scheme \<Rightarrow> 'sub analytical_step_scheme" where
  "analytical_step_finalize step = step"

definition get_ordering :: "'sub analytical_step_scheme \<Rightarrow> ordering" where
  "get_ordering step = m_step_order step"

definition file_io :: "'sub analytical_step_scheme \<Rightarrow> bool" where
  "file_io step = m_file_io step"

text \<open>
  The calls a pipeline makes on a step. \<^verbatim>\<open>process\<close> is pure virtual and
  \<^verbatim>\<open>finalize\<close> is virtual: \<open>process_sub chunk\<close> is what the derived class's
  \<^verbatim>\<open>process\<close> does to the derived class's members when called on the chunk pointer
  \<open>chunk\<close> (however the call ends), and \<open>finalize_sub\<close> is the same for its
  \<^verbatim>\<open>finalize\<close>, or \<open>None\<close> when the derived class does not override it and the call
  runs the default of the base. The two getters are \<^verbatim>\<open>const\<close>.
\<close>

datatype step_call = Process addr | Finalize_step | Get_ordering | File_io

fun run_step_call ::
  "(addr \<Rightarrow> 'sub \<Rightarrow> 'sub) \<Rightarrow> ('sub \<Rightarrow> 'sub) option \<Rightarrow> step_call
     \<Rightarrow> 'sub analytical_step_scheme \<Rightarrow> 'sub analytical_step_scheme" where
  "run_step_call process_sub finalize_sub (Process chunk) step =
     step\<lparr>analytical_step.more := process_sub chunk (analytical_step.more step)\<rparr>"
| "run_step_call process_sub finalize_sub Finalize_step step =
     (case finalize_sub of
        None \<Rightarrow> analytical_step_finalize step
      | Some f \<Rightarrow> step\<lparr>analytical_step.more := f (analytical_step.more step)\<rparr>)"
| "run_step_call process_sub finalize_sub Get_ordering step = step"
| "run_step_call process_sub finalize_sub File_io step = step"

fun run_step_calls ::
  "(addr \<Rightarrow> 'sub \<Rightarrow> 'sub) \<Rightarrow> ('sub \<Rightarrow> 'sub) option \<Rightarrow> step_call list
     \<Rightarrow> 'sub analytical_step_scheme \<Rightarrow> 'sub analytical_step_scheme" where
  "run_step_calls process_sub finalize_sub [] step = step"
| "run_step_calls process_sub finalize_sub (c # cs) step =
     run_step_calls process_sub finalize_sub cs (run_step_call process_sub finalize_sub c step)"

section \<open>The worker loop of the scheduler\<close>

text \<open>
  The header declares the two queues of runnable steps and the flag \<^verbatim>\<open>m_io_active\<close>,
  all three guarded by \<^verbatim>\<open>m_queue_lock\<close>. A step is named by its position in the
  pipeline. \<open>running\<close> is not a field of the class: it records, for each worker thread,
  the step the thread is executing, if any.
\<close>

record scheduler =
  m_queue_calc :: "nat list"
  m_queue_io :: "nat list"
  m_io_active :: bool
  running :: "nat \<rightharpoonup> nat"

text \<open>
  Modelled from the spec: \<^verbatim>\<open>queue_analytical_step\<close> is declared in the header and
  defined elsewhere. Section 4.4.2 of the spec has two queues, the calc queue for
  runnable steps whose \<^verbatim>\<open>file_io\<close> is false and the io queue for those whose
  \<^verbatim>\<open>file_io\<close> is true, both FIFO; section 4.4.3 pushes a step that has become
  runnable "onto the appropriate queue".
\<close>

definition queue_analytical_step :: "(nat \<Rightarrow> analytical_step) \<Rightarrow> nat \<Rightarrow> scheduler \<Rightarrow> scheduler" where
  "queue_analytical_step m_steps step s =
     (if file_io (m_steps step) then s\<lparr>m_queue_io := m_queue_io s @ [step]\<rparr>
      else s\<lparr>m_queue_calc := m_queue_calc s @ [step]\<rparr>)"

text \<open>
  Modelled from the spec: the state in which \<^verbatim>\<open>run\<close> starts its workers is set up
  in code that is not in the header. By section 2 of the spec step 0 is the source, and
  by section 4.3 the source is runnable while the stream has not ended: at the start the
  source is queued, no thread does IO and no worker executes a step.
\<close>

definition scheduler_start :: "(nat \<Rightarrow> analytical_step) \<Rightarrow> scheduler" where
  "scheduler_start m_steps =
     queue_analytical_step m_steps 0
       \<lparr>m_queue_calc = [], m_queue_io = [], m_io_active = False, running = Map.empty\<rparr>"

text \<open>
  Modelled from the spec: \<^verbatim>\<open>do_run\<close> is declared in the header and defined
  elsewhere. Section 4.4.2 of the spec gives the loop of a worker. Steps 1 to 6 run with
  the queue lock held, so a worker picks its step in one move, \<open>claim\<close>: if
  \<^verbatim>\<open>io_active\<close> is false and the io queue is not empty, pop it and set
  \<^verbatim>\<open>io_active\<close>; else if the calc queue is not empty, pop it; else wait. Step 7 runs
  with the lock held again, so a worker hands its step back in one move, \<open>release\<close>: if
  the step was IO, clear \<^verbatim>\<open>io_active\<close>, then queue the steps that have become
  runnable (\<open>runnable\<close>, which the execution of the step decides). Between the two moves
  the worker executes the step without the lock. \<open>None\<close> is a move the loop does not
  make: a claim by a worker that is executing a step or finds nothing to pop (it
  waits), a release by a worker that executes nothing.
\<close>

definition claim :: "nat \<Rightarrow> scheduler \<Rightarrow> scheduler option" where
  "claim worker s =
     (if running s worker \<noteq> None then None
      else if \<not> m_io_active s \<and> m_queue_io s \<noteq> [] then
        Some (s\<lparr>m_queue_io := tl (m_queue_io s), m_io_active := True,
                running := (running s)(worker \<mapsto> hd (m_queue_io s))\<rparr>)
      else if m_queue_calc s \<noteq> [] then
        Some (s\<lparr>m_queue_calc := tl (m_queue_calc s),
                running := (running s)(worker \<mapsto> hd (m_queue_calc s))\<rparr>)
      else None)"

definition release :: "(nat \<Rightarrow> analytical_step) \<Rightarrow> nat \<Rightarrow> nat list \<Rightarrow> scheduler \<Rightarrow> scheduler option" where
  "release m_steps worker runnable s =
     (case running s worker of
        None \<Rightarrow> None
      | Some step \<Rightarrow>
          Some (fold (queue_analytical_step m_steps) runnable
                  (s\<lparr>m_io_active := (if file_io (m_steps step) then False else m_io_active s),
                     running := (running s)(worker := None)\<rparr>)))"

datatype move = Claim nat | Release nat "nat list"

fun do_run :: "(nat \<Rightarrow> analytical_step) \<Rightarrow> move list \<Rightarrow> scheduler \<Rightarrow> scheduler option" where
  "do_run m_steps [] s = Some s"
| "do_run m_steps (Claim worker # moves) s =
     (case claim worker s of None \<Rightarrow> None | Some s' \<Rightarrow> do_run m_steps moves s')"
| "do_run m_steps (Release worker runnable # moves) s =
     (case release m_steps worker runnable s of None \<Rightarrow> None | Some s' \<Rightarrow> do_run m_steps moves s')"

text \<open>A worker executes an IO step: the step it holds has \<^verbatim>\<open>file_io\<close> true.\<close>

definition executes_io :: "(nat \<Rightarrow> analytical_step) \<Rightarrow> scheduler \<Rightarrow> nat \<Rightarrow> bool" where
  "executes_io m_steps s worker =
     (case running s worker of None \<Rightarrow> False | Some step \<Rightarrow> file_io (m_steps step))"

text \<open>
  What the moves keep true: the io queue holds IO steps only and the calc queue none;
  while a worker executes an IO step the flag is set; no two workers execute IO steps.
\<close>

definition queues_sorted :: "(nat \<Rightarrow> analytical_step) \<Rightarrow> scheduler \<Rightarrow> bool" where
  "queues_sorted m_steps s \<longleftrightarrow>
     (\<forall>step \<in> set (m_queue_io s). file_io (m_steps step)) \<and>
     (\<forall>step \<in> set (m_queue_calc s). \<not> file_io (m_steps step))"

definition io_exclusive :: "(nat \<Rightarrow> analytical_step) \<Rightarrow> scheduler \<Rightarrow> bool" where
  "io_exclusive m_steps s \<longleftrightarrow>
     queues_sorted m_steps s \<and>
     (\<forall>w. executes_io m_steps s w \<longrightarrow> m_io_active s) \<and>
     (\<forall>w1 w2. executes_io m_steps s w1 \<and> executes_io m_steps s w2 \<longrightarrow> w1 = w2)"

text \<open>
  A pipeline for the examples: step 0 is the source, steps 1 and 2 are ordered and do
  file IO, every other step is unordered and does none. In \<open>example_moves\<close> worker 0
  runs the source, which makes the steps 1, 2, 3 and the source itself runnable; then the
  workers 1, 2 and 3 each claim a step.
\<close>

definition example_steps :: "nat \<Rightarrow> analytical_step" where
  "example_steps step =
     (if step = 1 \<or> step = 2 then analytical_step_ctor ordered True ()
      else analytical_step_ctor_default unordered ())"

definition example_moves :: "move list" where
  "example_moves = [Claim 0, Release 0 [1, 2, 3, 0], Claim 1, Claim 2, Claim 3]"

section \<open>The input buffer of an ordered step\<close>

text \<open>
  Modelled from the spec: \<^verbatim>\<open>scheduler_step\<close> and \<^verbatim>\<open>data_chunk\<close> are declared in the
  header (\<^verbatim>\<open>struct data_chunk; struct scheduler_step;\<close>) and defined elsewhere. By
  section 3 of the spec a scheduled step that is ordered has an input buffer, "a mapping
  from sequence number \<rightarrow> chunk", and \<^verbatim>\<open>next_expected_seq\<close>, "the sequence number the
  ordered step is waiting for"; a chunk travels with the sequence number the source gave
  it. A chunk is its sequence number and the pointer to its payload.
\<close>

record data_chunk =
  seq :: nat
  data :: addr

record scheduler_step =
  input_buffer :: "nat \<rightharpoonup> data_chunk"
  next_expected_seq :: nat

datatype step_failure = Invariant_Violation | Not_Runnable

text \<open>
  Modelled from the spec: section 4.4.3, "for each (tgt, chunk) pair, insert chunk into
  tgt's input buffer", under the chunk's sequence number; an ordered step that receives
  a sequence number it already holds is the invariant violation of section 7.
\<close>

definition insert_chunk :: "data_chunk \<Rightarrow> scheduler_step \<Rightarrow> step_failure + scheduler_step" where
  "insert_chunk chunk st =
     (case input_buffer st (seq chunk) of
        Some other \<Rightarrow> Inl Invariant_Violation
      | None \<Rightarrow> Inr (st\<lparr>input_buffer := (input_buffer st)(seq chunk \<mapsto> chunk)\<rparr>))"

text \<open>
  Modelled from the spec: section 4.4.3, "If S is ordered: pop the chunk at
  next_expected_seq from its input buffer, increment next_expected_seq, call
  S.process(chunk)". The result is the chunk handed to \<^verbatim>\<open>process\<close>, the value
  \<^verbatim>\<open>next_expected_seq\<close> had when the chunk was popped, and the step afterwards. By
  section 3 the step is runnable iff \<^verbatim>\<open>next_expected_seq\<close> is in the buffer; the
  scheduler dispatches runnable steps only.
\<close>

definition consume_chunk :: "scheduler_step \<Rightarrow> step_failure + (data_chunk \<times> nat \<times> scheduler_step)" where
  "consume_chunk st =
     (case input_buffer st (next_expected_seq st) of
        None \<Rightarrow> Inl Not_Runnable
      | Some chunk \<Rightarrow>
          Inr (chunk, next_expected_seq st,
               st\<lparr>input_buffer := (input_buffer st)(next_expected_seq st := None),
                  next_expected_seq := next_expected_seq st + 1\<rparr>))"

text \<open>
  What happens to one ordered step during a run: chunks arrive from the steps before
  it, in any order, and the step is dispatched. \<open>consumed\<close> lists the chunks handed to
  \<^verbatim>\<open>process\<close> in the order of the calls, each with the value of
  \<^verbatim>\<open>next_expected_seq\<close> at the moment it was popped.
\<close>

datatype step_event = Arrive data_chunk | Dispatch

fun ordered_step_run ::
  "step_event list \<Rightarrow> (data_chunk \<times> nat) list \<times> scheduler_step
     \<Rightarrow> step_failure + ((data_chunk \<times> nat) list \<times> scheduler_step)" where
  "ordered_step_run [] (consumed, st) = Inr (consumed, st)"
| "ordered_step_run (Arrive chunk # evs) (consumed, st) =
     (case insert_chunk chunk st of
        Inl e \<Rightarrow> Inl e
      | Inr st' \<Rightarrow> ordered_step_run evs (consumed, st'))"
| "ordered_step_run (Dispatch # evs) (consumed, st) =
     (case consume_chunk st of
        Inl e \<Rightarrow> Inl e
      | Inr (chunk, expected, st') \<Rightarrow> ordered_step_run evs (consumed @ [(chunk, expected)], st'))"

text \<open>The chunks of a buffer are filed under their own sequence numbers.\<close>

definition buffer_keyed :: "scheduler_step \<Rightarrow> bool" where
  "buffer_keyed st \<longleftrightarrow> (\<forall>k chunk. input_buffer st k = Some chunk \<longrightarrow> seq chunk = k)"

text \<open>
  Modelled from the spec: the constructor of \<^verbatim>\<open>scheduler_step\<close> is not in the header.
  A step that has received nothing has an empty buffer, and scenario 2 of the spec
  numbers the chunks of the source from 0, so a new ordered step waits for number 0.
\<close>

definition scheduler_step_start :: scheduler_step where
  "scheduler_step_start = \<lparr>input_buffer = Map.empty, next_expected_seq = 0\<rparr>"

section \<open>Properties of statistics_sink\<close>

subsection \<open>The loop of finalize\<close>

text \<open>
  The defining equation of the loop calls the loop again, so it is not a rewrite rule;
  the two lemmas below unfold it once, at an empty list and at a list with a back.
\<close>

declare finalize_loop.simps [simp del]

lemma finalize_loop_Nil: "m_sinks s = [] \<Longrightarrow> finalize_loop plus_eq result h s = Inr (h, s)"
  by (subst finalize_loop.simps) simp

lemma finalize_loop_step:
  "m_sinks s = qs @ [q] \<Longrightarrow> h result = Some a \<Longrightarrow> h q = Some b \<Longrightarrow>
   finalize_loop plus_eq result h s =
     finalize_loop plus_eq result ((h(result \<mapsto> plus_eq a b))(q := None)) (s\<lparr>m_sinks := qs\<rparr>)"
  by (subst finalize_loop.simps) simp

lemma finalize_loop_fold:
  "distinct qs \<Longrightarrow> result \<notin> set qs \<Longrightarrow> h result = Some a \<Longrightarrow> map h qs = map Some ws \<Longrightarrow>
   m_sinks s = qs \<Longrightarrow>
   finalize_loop plus_eq result h s =
     Inr (\<lambda>p. if p = result then Some (foldl plus_eq a (rev ws))
               else if p \<in> set qs then None else h p,
          s\<lparr>m_sinks := []\<rparr>)"
proof (induction qs arbitrary: h a ws s rule: rev_induct)
  case Nil
  then have "(\<lambda>p. if p = result then Some (foldl plus_eq a (rev ws)) else if p \<in> set [] then None else h p) = h"
    by (auto simp: fun_eq_iff)
  with Nil show ?case by (simp add: finalize_loop_Nil)
next
  case (snoc q qs)
  from snoc.prems(4) obtain ws' b where ws: "ws = ws' @ [b]" and m: "map h qs = map Some ws'" and hq: "h q = Some b"
    by (cases ws rule: rev_cases) auto
  let ?h1 = "(h(result \<mapsto> plus_eq a b))(q := None)"
  have d: "distinct qs" "result \<notin> set qs" "q \<notin> set qs" "q \<noteq> result"
    using snoc.prems by auto
  have m1: "map ?h1 qs = map Some ws'"
  proof -
    have "map ?h1 qs = map h qs" using d by (intro map_cong) auto
    with m show ?thesis by simp
  qed
  have r1: "?h1 result = Some (plus_eq a b)" using d by simp
  have "finalize_loop plus_eq result h s = finalize_loop plus_eq result ?h1 (s\<lparr>m_sinks := qs\<rparr>)"
    using snoc.prems(5,3) hq by (rule finalize_loop_step)
  also have "\<dots> = Inr (\<lambda>p. if p = result then Some (foldl plus_eq (plus_eq a b) (rev ws'))
               else if p \<in> set qs then None else ?h1 p, s\<lparr>m_sinks := qs\<rparr>\<lparr>m_sinks := []\<rparr>)"
    by (rule snoc.IH [OF d(1) d(2) r1 m1]) simp
  also have "\<dots> = Inr (\<lambda>p. if p = result then Some (foldl plus_eq a (rev ws))
               else if p \<in> set (qs @ [q]) then None else h p, s\<lparr>m_sinks := []\<rparr>)"
    using ws by (auto simp: fun_eq_iff)
  finally show ?case .
qed

lemma finalize_loop_keeps_freed:
  "finalize_loop plus_eq result h s = Inr (h', s') \<Longrightarrow> h q = None \<Longrightarrow> h' q = None"
proof (induction plus_eq result h s rule: finalize_loop.induct)
  case (1 plus_eq result h s)
  show ?case
  proof (cases "m_sinks s = []")
    case True
    with "1.prems" show ?thesis by (simp add: finalize_loop_Nil)
  next
    case False
    with "1.prems"(1) obtain a b where a: "h result = Some a" and b: "h (last (m_sinks s)) = Some b"
      by (subst (asm) finalize_loop.simps) (auto split: option.splits)
    let ?h1 = "(h(result \<mapsto> plus_eq a b))(last (m_sinks s) := None)"
    have run: "finalize_loop plus_eq result ?h1 (s\<lparr>m_sinks := butlast (m_sinks s)\<rparr>) = Inr (h', s')"
      using "1.prems"(1) False a b by (subst (asm) finalize_loop.simps) simp
    have "?h1 q = None" using "1.prems"(2) a by auto
    with "1.IH" [OF False a b run] show ?thesis .
  qed
qed

lemma finalize_loop_drains:
  "finalize_loop plus_eq result h s = Inr (h', s') \<Longrightarrow>
   s' = s\<lparr>m_sinks := []\<rparr> \<and> (\<forall>q \<in> set (m_sinks s). h' q = None)"
proof (induction plus_eq result h s rule: finalize_loop.induct)
  case (1 plus_eq result h s)
  show ?case
  proof (cases "m_sinks s = []")
    case True
    with "1.prems" show ?thesis by (simp add: finalize_loop_Nil)
  next
    case False
    with "1.prems"(1) obtain a b where a: "h result = Some a" and b: "h (last (m_sinks s)) = Some b"
      by (subst (asm) finalize_loop.simps) (auto split: option.splits)
    let ?h1 = "(h(result \<mapsto> plus_eq a b))(last (m_sinks s) := None)"
    have run: "finalize_loop plus_eq result ?h1 (s\<lparr>m_sinks := butlast (m_sinks s)\<rparr>) = Inr (h', s')"
      using "1.prems"(1) False a b by (subst (asm) finalize_loop.simps) simp
    have ih: "s' = s\<lparr>m_sinks := butlast (m_sinks s)\<rparr>\<lparr>m_sinks := []\<rparr> \<and>
        (\<forall>q \<in> set (butlast (m_sinks s)). h' q = None)"
      using "1.IH" [OF False a b run] by simp
    have "h' (last (m_sinks s)) = None"
      using finalize_loop_keeps_freed [OF run] by simp
    moreover have "set (m_sinks s) = insert (last (m_sinks s)) (set (butlast (m_sinks s)))"
      using False by (metis append_butlast_last_id list.simps(15) rotate1.simps(2) set_rotate1)
    ultimately show ?thesis using ih by auto
  qed
qed


subsection \<open>Folding with an associative and commutative operator\<close>

lemma foldl_commute_step:
  assumes assoc: "\<forall>a b c. f (f a b) c = f a (f b c)" and comm: "\<forall>a b. f a b = f b a"
  shows "foldl f (f a x) xs = f (foldl f a xs) x"
proof (induction xs arbitrary: a)
  case Nil
  show ?case by simp
next
  case (Cons y ys)
  have "f (f a x) y = f (f a y) x"
    using assoc comm by metis
  then show ?case using Cons.IH [of "f a y"] by simp
qed

lemma foldl_rev_commute:
  assumes assoc: "\<forall>a b c. f (f a b) c = f a (f b c)" and comm: "\<forall>a b. f a b = f b a"
  shows "foldl f a (rev xs) = foldl f a xs"
proof (induction xs arbitrary: a)
  case Nil
  show ?case by simp
next
  case (Cons x xs)
  show ?case using Cons.IH [of a] foldl_commute_step [OF assoc comm, of a x xs] by simp
qed

lemma foldl_back_to_front_commute:
  assumes assoc: "\<forall>a b c. f (f a b) c = f a (f b c)" and comm: "\<forall>a b. f a b = f b a"
    and ne: "vs \<noteq> []"
  shows "foldl f (last vs) (rev (butlast vs)) = foldl f (hd vs) (tl vs)"
proof (cases "butlast vs")
  case Nil
  with ne have "vs = [last vs]" by (metis append_butlast_last_id append_Nil)
  then have "tl vs = []" "hd vs = last vs" "butlast vs = []"
    by (metis list.sel(3), metis list.sel(1), metis butlast.simps(2))
  then show ?thesis by simp
next
  case (Cons u us)
  with ne have vs: "vs = u # us @ [last vs]" by (metis append_butlast_last_id append_Cons)
  have "foldl f (last vs) (rev (butlast vs)) = foldl f (last vs) (u # us)"
    by (simp only: Cons foldl_rev_commute [OF assoc comm])
  also have "\<dots> = foldl f (f u (last vs)) us" using comm by simp
  also have "\<dots> = f (foldl f u us) (last vs)" by (rule foldl_commute_step [OF assoc comm])
  also have "\<dots> = foldl f u (us @ [last vs])" by simp
  also have "\<dots> = foldl f (hd vs) (tl vs)"
  proof -
    have "hd vs = u" using vs by (metis list.sel(1))
    moreover have "tl vs = us @ [last vs]" using vs by (metis list.sel(3))
    ultimately show ?thesis by simp
  qed
  finally show ?thesis .
qed

subsection \<open>What finalize returns\<close>

lemma finalize_nonempty:
  assumes "m_sinks s = ps" and "ps \<noteq> []" and "distinct ps" and "map h ps = map Some vs"
  shows "finalize new_sink plus_eq h s =
           Inr (last ps,
                (\<lambda>p. if p = last ps then Some (foldl plus_eq (last vs) (rev (butlast vs)))
                     else if p \<in> set (butlast ps) then None else h p),
                s\<lparr>m_sinks := []\<rparr>)"
proof -
  have len: "length vs = length ps" using assms(4) by (metis length_map)
  with assms(2) have vne: "vs \<noteq> []" by auto
  have ps: "ps = butlast ps @ [last ps]" and vs: "vs = butlast vs @ [last vs]"
    using assms(2) vne by simp_all
  have "map h (butlast ps @ [last ps]) = map Some (butlast vs @ [last vs])"
    using assms(4) ps vs by simp
  then have m: "map h (butlast ps) = map Some (butlast vs)" and l: "h (last ps) = Some (last vs)"
    using len by simp_all
  have d: "distinct (butlast ps)" "last ps \<notin> set (butlast ps)"
    using assms(3) ps by (metis distinct_butlast, metis distinct_append disjoint_iff list.set_intros(1) distinct.simps(2))
  have "finalize_loop plus_eq (last ps) h (s\<lparr>m_sinks := butlast (m_sinks s)\<rparr>) =
          Inr (\<lambda>p. if p = last ps then Some (foldl plus_eq (last vs) (rev (butlast vs)))
                    else if p \<in> set (butlast ps) then None else h p,
               s\<lparr>m_sinks := butlast (m_sinks s)\<rparr>\<lparr>m_sinks := []\<rparr>)"
    by (rule finalize_loop_fold [OF d l m]) (simp add: assms(1))
  then show ?thesis
    using assms(1,2) by (simp add: finalize_def Let_def)
qed

text \<open>
  Claim C1, as amended. Let the list of a sink hold the pointers \<open>ps = [p1, ..., pn]\<close>,
  \<open>n \<ge> 1\<close>, to distinct live objects with contents \<open>vs = [s1, ..., sn]\<close>. Then
  \<^verbatim>\<open>finalize\<close> returns the back pointer \<open>pn\<close>, and the object behind it holds
  \<open>(...((sn + s(n-1)) + s(n-2)) + ...) + s1\<close>: the contents folded from the back of the
  list to its front, each earlier object added on the right of the sum so far. Nothing
  is asked of \<^verbatim>\<open>+=\<close> for that. The other objects of the list are deleted, the list
  is left empty and the rest of the free store is untouched. When \<^verbatim>\<open>+=\<close> is
  associative and commutative the sum equals the left fold \<open>s1 + s2 + ... + sn\<close>.
\<close>

theorem finalize_sums_back_to_front:
  assumes "m_sinks s = ps" and "ps \<noteq> []" and "distinct ps" and "map h ps = map Some vs"
  shows "finalize new_sink plus_eq h s =
           Inr (last ps,
                (\<lambda>p. if p = last ps then Some (foldl plus_eq (last vs) (rev (butlast vs)))
                     else if p \<in> set (butlast ps) then None else h p),
                s\<lparr>m_sinks := []\<rparr>)
         \<and> ((\<forall>a b c. plus_eq (plus_eq a b) c = plus_eq a (plus_eq b c)) \<and>
              (\<forall>a b. plus_eq a b = plus_eq b a) \<longrightarrow>
            foldl plus_eq (last vs) (rev (butlast vs)) = foldl plus_eq (hd vs) (tl vs))"
proof -
  have "length vs = length ps" using assms(4) by (metis length_map)
  with assms(2) have "vs \<noteq> []" by auto
  then show ?thesis
    using finalize_nonempty [OF assms] foldl_back_to_front_commute [of plus_eq vs] by blast
qed

text \<open>
  C1, witness: three strings under concatenation (associative, not commutative) come
  out as \<open>''cba''\<close>; three integers under addition come out as their sum.
\<close>

theorem finalize_sums_back_to_front_witness:
  "result_value (finalize (new_sink_at 3 []) append [0 \<mapsto> ''a'', 1 \<mapsto> ''b'', 2 \<mapsto> ''c'']
      \<lparr>m_sinks = [0, 1, 2]\<rparr>) = Some ''cba''
   \<and> result_value (finalize (new_sink_at 3 0) plus [0 \<mapsto> 1, 1 \<mapsto> 20, 2 \<mapsto> (300::int)]
      \<lparr>m_sinks = [0, 1, 2]\<rparr>) = Some 321"
proof -
  have a: "m_sinks \<lparr>m_sinks = [0, 1, 2]\<rparr> = [0, 1, 2]" "[0, 1, 2::addr] \<noteq> []" "distinct [0, 1, 2::addr]"
    by simp_all
  have s: "map [0 \<mapsto> ''a'', 1 \<mapsto> ''b'', 2 \<mapsto> ''c''] [0::addr, 1, 2] = map Some [''a'', ''b'', ''c'']"
    by simp
  have i: "map [0 \<mapsto> 1, 1 \<mapsto> 20, 2 \<mapsto> (300::int)] [0::addr, 1, 2] = map Some [1, 20, 300]"
    by simp
  have ac: "(\<forall>a b c. (a + b) + c = a + (b + c :: int)) \<and> (\<forall>a b. a + b = b + (a::int))"
    by simp
  show ?thesis
    using finalize_sums_back_to_front [OF a s, of "new_sink_at 3 []" append]
      finalize_sums_back_to_front [OF a i, of "new_sink_at 3 0" plus] ac
    by (simp add: result_value_def)
qed

text \<open>
  C1, counterexample to the claim as stated (a left fold \<open>s1 + ... + sn\<close> for every
  associative \<^verbatim>\<open>+=\<close>): concatenation of strings is associative, the list holds
  \<open>''a''\<close> then \<open>''b''\<close>, the left fold is \<open>''ab''\<close> and \<^verbatim>\<open>finalize\<close> returns
  \<open>''ba''\<close>.
\<close>

theorem finalize_front_to_back_counterexample:
  "result_value (finalize (new_sink_at 2 []) append [0 \<mapsto> ''a'', 1 \<mapsto> ''b'']
      \<lparr>m_sinks = [0, 1]\<rparr>) = Some ''ba''
   \<and> foldl append ''a'' [''b''] = ''ab''
   \<and> result_value (finalize (new_sink_at 2 []) append [0 \<mapsto> ''a'', 1 \<mapsto> ''b'']
      \<lparr>m_sinks = [0, 1]\<rparr>) \<noteq> Some (foldl append ''a'' [''b''])"
  by (simp add: finalize_def result_value_def finalize_loop.simps)

subsection \<open>What the list holds\<close>

lemma run_call_m_sinks:
  assumes "run_call new_sink plus_eq c (h, s) = Inr (h', s')"
  shows "set (m_sinks s') \<subseteq> set (m_sinks s) \<union> {ptr. c = Return_sink ptr}"
proof (cases c)
  case Get_sink
  with assms show ?thesis
    by (auto simp: get_sink_def Let_def split: if_splits prod.splits dest: list.set_sel(2))
next
  case (Return_sink ptr)
  with assms show ?thesis by (auto simp: return_sink_def)
next
  case Finalize
  with assms show ?thesis
    by (auto simp: finalize_def Let_def split: if_splits prod.splits sum.splits
          dest!: finalize_loop_drains)
next
  case (Client f)
  with assms show ?thesis by auto
qed

lemma run_calls_m_sinks:
  "run_calls new_sink plus_eq cs (h, s) = Inr (h', s') \<Longrightarrow>
   set (m_sinks s') \<subseteq> set (m_sinks s) \<union> {ptr. Return_sink ptr \<in> set cs}"
proof (induction cs arbitrary: h s)
  case Nil
  then show ?case by simp
next
  case (Cons c cs)
  from Cons.prems obtain h1 s1 where
    one: "run_call new_sink plus_eq c (h, s) = Inr (h1, s1)" and
    rest: "run_calls new_sink plus_eq cs (h1, s1) = Inr (h', s')"
    by (auto split: sum.splits)
  from run_call_m_sinks [OF one] Cons.IH [OF rest] show ?case by auto
qed

text \<open>
  Claim C2. Take a sink after any sequence of calls since its constructor.
  If its list is empty, \<^verbatim>\<open>get_sink\<close> returns what \<^verbatim>\<open>new_sink\<close> returns and
  leaves the list empty. Otherwise it returns a pointer of the list, which an earlier
  \<^verbatim>\<open>return_sink\<close> handed back, leaves the free store as it is, and removes that
  pointer from the list (its first occurrence, at the front). In both cases the pointer
  is not in the list afterwards, provided the list did not hold it twice.
\<close>

theorem get_sink_released_or_new:
  assumes "run_calls new_sink plus_eq cs (h0, statistics_sink_ctor) = Inr (h, s)"
  shows "\<exists>ptr h' s'. get_sink new_sink h s = (ptr, h', s') \<and>
           (if m_sinks s = [] then (ptr, h') = new_sink h \<and> s' = s
            else ptr \<in> set (m_sinks s) \<and> Return_sink ptr \<in> set cs \<and> h' = h \<and>
                 s' = s\<lparr>m_sinks := remove1 ptr (m_sinks s)\<rparr>) \<and>
           (distinct (m_sinks s) \<longrightarrow> ptr \<notin> set (m_sinks s'))"
proof (cases "m_sinks s")
  case Nil
  then show ?thesis by (simp add: get_sink_def split: prod.splits)
next
  case (Cons p ps)
  have "p \<in> set (m_sinks s)" using Cons by simp
  with run_calls_m_sinks [OF assms] have "Return_sink p \<in> set cs"
    by (auto simp: statistics_sink_ctor_def)
  with Cons show ?thesis by (simp add: get_sink_def)
qed

theorem get_sink_released_or_new_witness:
  "run_calls (new_sink_at 9 (0::nat)) plus [Return_sink 5, Return_sink 6, Get_sink, Return_sink 7]
      (Map.empty, statistics_sink_ctor) = Inr (Map.empty, \<lparr>m_sinks = [6, 7]\<rparr>)
   \<and> get_sink (new_sink_at 9 (0::nat)) Map.empty \<lparr>m_sinks = [6, 7]\<rparr> = (6, Map.empty, \<lparr>m_sinks = [7]\<rparr>)
   \<and> run_calls (new_sink_at 9 (0::nat)) plus [Return_sink 5, Get_sink]
      (Map.empty, statistics_sink_ctor) = Inr (Map.empty, \<lparr>m_sinks = []\<rparr>)
   \<and> fst (get_sink (new_sink_at 9 (0::nat)) Map.empty \<lparr>m_sinks = []\<rparr>) = 9"
proof -
  have a: "run_calls (new_sink_at 9 (0::nat)) plus [Return_sink 5, Return_sink 6, Get_sink, Return_sink 7]
      (Map.empty, statistics_sink_ctor) = Inr (Map.empty, \<lparr>m_sinks = [6, 7]\<rparr>)"
    by (simp add: statistics_sink_ctor_def return_sink_def get_sink_def)
  have b: "run_calls (new_sink_at 9 (0::nat)) plus [Return_sink 5, Get_sink]
      (Map.empty, statistics_sink_ctor) = Inr (Map.empty, \<lparr>m_sinks = []\<rparr>)"
    by (simp add: statistics_sink_ctor_def return_sink_def get_sink_def)
  show ?thesis
    using a b get_sink_released_or_new [OF a] get_sink_released_or_new [OF b]
    by (simp add: get_sink_def new_sink_at_def)
qed

lemma finalize_loop_keeps_result:
  "finalize_loop plus_eq result h s = Inr (h', s') \<Longrightarrow> result \<notin> set (m_sinks s) \<Longrightarrow>
   h result \<noteq> None \<Longrightarrow> h' result \<noteq> None"
proof (induction plus_eq result h s rule: finalize_loop.induct)
  case (1 plus_eq result h s)
  show ?case
  proof (cases "m_sinks s = []")
    case True
    with "1.prems" show ?thesis by (simp add: finalize_loop_Nil)
  next
    case False
    with "1.prems"(1) obtain a b where a: "h result = Some a" and b: "h (last (m_sinks s)) = Some b"
      by (subst (asm) finalize_loop.simps) (auto split: option.splits)
    let ?h1 = "(h(result \<mapsto> plus_eq a b))(last (m_sinks s) := None)"
    have run: "finalize_loop plus_eq result ?h1 (s\<lparr>m_sinks := butlast (m_sinks s)\<rparr>) = Inr (h', s')"
      using "1.prems"(1) False a b by (subst (asm) finalize_loop.simps) simp
    have "last (m_sinks s) \<noteq> result" using False "1.prems"(2) last_in_set by metis
    then have live: "?h1 result \<noteq> None" by simp
    have "result \<notin> set (m_sinks (s\<lparr>m_sinks := butlast (m_sinks s)\<rparr>))"
      using "1.prems"(2) by (auto dest: in_set_butlastD)
    from "1.IH" [OF False a b run this live] show ?thesis .
  qed
qed

text \<open>
  What every returning call of \<^verbatim>\<open>finalize\<close> does to the list: it leaves it empty,
  it deletes every object of the list but the one behind the back pointer, and it
  returns the back pointer; the object behind it is live afterwards when it was live
  before and the list held its pointer once. A \<^verbatim>\<open>get_sink\<close> that follows finds
  nothing in the list and asks \<^verbatim>\<open>new_sink\<close> for an object.
\<close>

lemma finalize_drains_list:
  assumes "finalize new_sink plus_eq h s = Inr (result, h', s')"
  shows "m_sinks s' = [] \<and>
         (\<forall>q \<in> set (butlast (m_sinks s)). h' q = None) \<and>
         (m_sinks s \<noteq> [] \<longrightarrow> result = last (m_sinks s)) \<and>
         (m_sinks s \<noteq> [] \<and> distinct (m_sinks s) \<and> h (last (m_sinks s)) \<noteq> None \<longrightarrow>
            h' result \<noteq> None) \<and>
         get_sink new_sink h' s' = (fst (new_sink h'), snd (new_sink h'), s')"
proof (cases "m_sinks s = []")
  case True
  with assms show ?thesis
    by (auto simp: finalize_def get_sink_def split: prod.splits)
next
  case False
  with assms obtain s1 where
    run: "finalize_loop plus_eq (last (m_sinks s)) h (s\<lparr>m_sinks := butlast (m_sinks s)\<rparr>) = Inr (h', s')"
    and r: "result = last (m_sinks s)"
    by (auto simp: finalize_def Let_def split: sum.splits)
  from finalize_loop_drains [OF run] have e: "m_sinks s' = []"
    and f: "\<forall>q \<in> set (butlast (m_sinks s)). h' q = None"
    by simp_all
  have "h' (last (m_sinks s)) \<noteq> None"
    if d: "distinct (m_sinks s)" and l: "h (last (m_sinks s)) \<noteq> None"
  proof -
    have "distinct (butlast (m_sinks s) @ [last (m_sinks s)])" using d False by simp
    then have "last (m_sinks s) \<notin> set (m_sinks (s\<lparr>m_sinks := butlast (m_sinks s)\<rparr>))" by simp
    from finalize_loop_keeps_result [OF run this l] show ?thesis .
  qed
  with r e f show ?thesis by (simp add: get_sink_def split: prod.splits)
qed


text \<open>
  Claim C8. On a sink whose list is empty \<^verbatim>\<open>finalize\<close> does not fail: it returns
  the pointer \<^verbatim>\<open>new_sink\<close> returns, with the free store as \<^verbatim>\<open>new_sink\<close> left it,
  and the list stays empty.
\<close>

theorem finalize_empty_list:
  assumes "m_sinks s = []"
  shows "finalize new_sink plus_eq h s = Inr (fst (new_sink h), snd (new_sink h), s)"
  using assms by (simp add: finalize_def split: prod.splits)

theorem finalize_empty_list_witness:
  "finalize (new_sink_at 4 (0::int)) plus Map.empty statistics_sink_ctor
     = Inr (4, [4 \<mapsto> 0], statistics_sink_ctor)"
proof -
  have a: "m_sinks statistics_sink_ctor = []" by (simp add: statistics_sink_ctor_def)
  show ?thesis
    using finalize_empty_list [OF a, of "new_sink_at 4 (0::int)" plus Map.empty]
    by (simp add: new_sink_at_def)
qed

subsection \<open>The order of the list\<close>

lemma return_sinks_append: "return_sinks ps s = s\<lparr>m_sinks := m_sinks s @ ps\<rparr>"
  by (induction ps arbitrary: s) (simp_all add: return_sink_def)

lemma get_sinks_take:
  "n \<le> length (m_sinks s) \<Longrightarrow>
   get_sinks new_sink n h s = (take n (m_sinks s), h, s\<lparr>m_sinks := drop n (m_sinks s)\<rparr>)"
proof (induction n arbitrary: s)
  case 0
  show ?case by simp
next
  case (Suc n)
  then obtain p ps where ps: "m_sinks s = p # ps" by (cases "m_sinks s") auto
  with Suc.prems have "n \<le> length (m_sinks (s\<lparr>m_sinks := ps\<rparr>))" by simp
  from Suc.IH [OF this] ps show ?case by (simp add: get_sink_def)
qed

text \<open>
  Claim C9, as amended. The list is a queue of pointers: \<^verbatim>\<open>return_sink\<close> appends
  its argument at the back, and \<^verbatim>\<open>get_sink\<close> on a list that is not empty removes
  the front and returns it. So \<open>n\<close> calls of \<^verbatim>\<open>return_sink\<close> followed by \<open>n\<close> calls
  of \<^verbatim>\<open>get_sink\<close> return the first \<open>n\<close> pointers of the old list followed by the
  returned ones, and leave the rest in the list. When the list was empty before, the
  calls of \<^verbatim>\<open>get_sink\<close> return exactly the pointers handed back, in the order they
  were handed back, and the list is empty again; with one pointer, \<^verbatim>\<open>return_sink\<close>
  on an empty list followed by \<^verbatim>\<open>get_sink\<close> returns that very pointer.
\<close>

theorem sink_list_is_fifo:
  "return_sink ptr s = s\<lparr>m_sinks := m_sinks s @ [ptr]\<rparr> \<and>
   (m_sinks s \<noteq> [] \<longrightarrow>
      get_sink new_sink h s = (hd (m_sinks s), h, s\<lparr>m_sinks := tl (m_sinks s)\<rparr>)) \<and>
   get_sinks new_sink (length ps) h (return_sinks ps s) =
     (take (length ps) (m_sinks s @ ps), h, s\<lparr>m_sinks := drop (length ps) (m_sinks s @ ps)\<rparr>) \<and>
   (m_sinks s = [] \<longrightarrow> get_sinks new_sink (length ps) h (return_sinks ps s) = (ps, h, s)) \<and>
   (m_sinks s = [] \<longrightarrow> get_sink new_sink h (return_sink ptr s) = (ptr, h, s))"
proof -
  have "length ps \<le> length (m_sinks (return_sinks ps s))"
    by (simp add: return_sinks_append)
  from get_sinks_take [OF this]
  have "get_sinks new_sink (length ps) h (return_sinks ps s) =
     (take (length ps) (m_sinks s @ ps), h, s\<lparr>m_sinks := drop (length ps) (m_sinks s @ ps)\<rparr>)"
    by (simp add: return_sinks_append)
  then show ?thesis by (simp add: return_sink_def get_sink_def)
qed

theorem sink_list_is_fifo_witness:
  "get_sinks (new_sink_at 9 (0::nat)) 2 Map.empty (return_sinks [3, 4] \<lparr>m_sinks = [7]\<rparr>)
     = ([7, 3], Map.empty, \<lparr>m_sinks = [4]\<rparr>)
   \<and> get_sinks (new_sink_at 9 (0::nat)) 3 Map.empty (return_sinks [3, 4, 3] statistics_sink_ctor)
     = ([3, 4, 3], Map.empty, statistics_sink_ctor)
   \<and> get_sink (new_sink_at 9 (0::nat)) Map.empty (return_sink 5 statistics_sink_ctor)
     = (5, Map.empty, statistics_sink_ctor)"
  using sink_list_is_fifo [of 5 "\<lparr>m_sinks = [7]\<rparr>" "new_sink_at 9 (0::nat)" Map.empty "[3, 4]"]
    sink_list_is_fifo [of 5 statistics_sink_ctor "new_sink_at 9 (0::nat)" Map.empty "[3, 4, 3]"]
  by (simp add: statistics_sink_ctor_def return_sink_def get_sink_def numeral_2_eq_2 numeral_3_eq_3)

text \<open>
  C9, counterexample to the claim as stated (releases followed by as many acquires yield
  exactly the released instances): the list holds the pointer 7, the pointer 8 is handed
  back, and the \<^verbatim>\<open>get_sink\<close> that follows returns 7, with 8 left in the list.
\<close>

theorem sink_list_not_empty_counterexample:
  "get_sinks (new_sink_at 9 (0::nat)) (length [8]) Map.empty (return_sinks [8] \<lparr>m_sinks = [7]\<rparr>)
     = ([7], Map.empty, \<lparr>m_sinks = [8]\<rparr>)
   \<and> [7] \<noteq> [8::addr]"
  by (simp add: return_sink_def get_sink_def)

section \<open>Properties of analytical_step\<close>

lemma run_step_call_fields:
  "m_step_order (run_step_call process_sub finalize_sub c step) = m_step_order step \<and>
   m_file_io (run_step_call process_sub finalize_sub c step) = m_file_io step"
  by (cases c) (simp_all add: analytical_step_finalize_def split: option.splits)

lemma run_step_calls_fields:
  "m_step_order (run_step_calls process_sub finalize_sub cs step) = m_step_order step \<and>
   m_file_io (run_step_calls process_sub finalize_sub cs step) = m_file_io step"
  by (induction cs arbitrary: step) (simp_all add: run_step_call_fields)

text \<open>
  Claim C4. Calls of \<^verbatim>\<open>process\<close>, \<^verbatim>\<open>finalize\<close> and the two getters, in any
  number and order and whatever the derived class does in \<^verbatim>\<open>process\<close> and
  \<^verbatim>\<open>finalize\<close>, leave the answers of \<^verbatim>\<open>get_ordering()\<close> and \<^verbatim>\<open>file_io()\<close> as
  they were. So a step constructed with the ordering \<open>step_order\<close> and the flag \<open>io\<close>
  answers \<^verbatim>\<open>get_ordering()\<close> with \<open>step_order\<close> and \<^verbatim>\<open>file_io()\<close> with \<open>io\<close>
  from then on.
\<close>

theorem descriptors_fixed_at_construction:
  "get_ordering (run_step_calls process_sub finalize_sub cs step) = get_ordering step \<and>
   file_io (run_step_calls process_sub finalize_sub cs step) = file_io step \<and>
   get_ordering (run_step_calls process_sub finalize_sub cs (analytical_step_ctor step_order io sub))
     = step_order \<and>
   file_io (run_step_calls process_sub finalize_sub cs (analytical_step_ctor step_order io sub))
     = io"
  by (simp add: get_ordering_def file_io_def run_step_calls_fields analytical_step_ctor_def)

text \<open>
  C4, witness: a derived class with a counter that \<^verbatim>\<open>process\<close> adds to and
  \<^verbatim>\<open>finalize\<close> doubles; the counter changes, the two descriptors do not.
\<close>

theorem descriptors_fixed_at_construction_witness:
  "get_ordering (run_step_calls (\<lambda>chunk n. n + chunk) (Some (\<lambda>n. 2 * n))
      [Process 5, Get_ordering, Finalize_step, File_io, Process 7]
      (analytical_step_ctor ordered True (0::nat))) = ordered
   \<and> file_io (run_step_calls (\<lambda>chunk n. n + chunk) (Some (\<lambda>n. 2 * n))
      [Process 5, Get_ordering, Finalize_step, File_io, Process 7]
      (analytical_step_ctor ordered True (0::nat))) = True
   \<and> analytical_step.more (run_step_calls (\<lambda>chunk n. n + chunk) (Some (\<lambda>n. 2 * n))
      [Process 5, Get_ordering, Finalize_step, File_io, Process 7]
      (analytical_step_ctor ordered True (0::nat))) = 17"
  using descriptors_fixed_at_construction [where process_sub = "\<lambda>chunk n. n + chunk"
      and finalize_sub = "Some (\<lambda>n. 2 * n)"
      and cs = "[Process 5, Get_ordering, Finalize_step, File_io, Process 7]"
      and step = "analytical_step_ctor ordered True (0::nat)"
      and step_order = ordered and io = True and sub = "0::nat"]
  by (simp add: analytical_step_ctor_def get_ordering_def file_io_def)

text \<open>
  Claim C5. The base class has a \<^verbatim>\<open>finalize\<close> of its own, so a derived class need not
  write one. It does nothing: the step after the call is the step before it, the two
  descriptors and the members of the derived class included, and a call of
  \<^verbatim>\<open>finalize\<close> on a step whose class does not override it is that default.
\<close>

theorem default_finalize_does_nothing:
  "analytical_step_finalize step = step \<and>
   run_step_call process_sub None Finalize_step step = step \<and>
   get_ordering (analytical_step_finalize step) = get_ordering step \<and>
   file_io (analytical_step_finalize step) = file_io step \<and>
   analytical_step.more (analytical_step_finalize step) = analytical_step.more step"
  by (simp add: analytical_step_finalize_def)

text \<open>
  Claim C10. A step constructed with the ordering alone has \<^verbatim>\<open>file_io()\<close> false, and
  keeps the ordering it was given.
\<close>

theorem file_io_defaults_to_false:
  "file_io (analytical_step_ctor_default step_order sub) = False \<and>
   get_ordering (analytical_step_ctor_default step_order sub) = step_order"
  by (simp add: analytical_step_ctor_default_def analytical_step_ctor_def file_io_def get_ordering_def)

section \<open>Properties of the worker loop\<close>

lemma queue_analytical_step_keeps:
  "queues_sorted m_steps s \<Longrightarrow> queues_sorted m_steps (queue_analytical_step m_steps step s)"
  by (auto simp: queues_sorted_def queue_analytical_step_def)

lemma queue_analytical_step_frame:
  "m_io_active (queue_analytical_step m_steps step s) = m_io_active s \<and>
   running (queue_analytical_step m_steps step s) = running s"
  by (simp add: queue_analytical_step_def)

lemma fold_queue_keeps:
  "queues_sorted m_steps s \<Longrightarrow> queues_sorted m_steps (fold (queue_analytical_step m_steps) steps s)"
  by (induction steps arbitrary: s) (simp_all add: queue_analytical_step_keeps)

lemma fold_queue_frame:
  "m_io_active (fold (queue_analytical_step m_steps) steps s) = m_io_active s \<and>
   running (fold (queue_analytical_step m_steps) steps s) = running s"
  by (induction steps arbitrary: s) (simp_all add: queue_analytical_step_frame)

lemma scheduler_start_exclusive: "io_exclusive m_steps (scheduler_start m_steps)"
  by (simp add: io_exclusive_def scheduler_start_def queues_sorted_def queue_analytical_step_def
      executes_io_def)

lemma claim_exclusive:
  assumes inv: "io_exclusive m_steps s" and c: "claim worker s = Some s'"
  shows "io_exclusive m_steps s'"
proof -
  from c have idle: "running s worker = None"
    by (auto simp: claim_def split: if_splits)
  show ?thesis
  proof (cases "\<not> m_io_active s \<and> m_queue_io s \<noteq> []")
    case True
    with c idle have s': "s' = s\<lparr>m_queue_io := tl (m_queue_io s), m_io_active := True,
                running := (running s)(worker \<mapsto> hd (m_queue_io s))\<rparr>"
      by (simp add: claim_def)
    from inv True have none: "\<And>w. \<not> executes_io m_steps s w"
      by (auto simp: io_exclusive_def)
    have q: "queues_sorted m_steps s'"
      using inv True by (auto simp: s' io_exclusive_def queues_sorted_def dest: list.set_sel(2))
    have "\<And>w. executes_io m_steps s' w \<Longrightarrow> w = worker"
      using none by (auto simp: s' executes_io_def split: if_splits option.splits)
    then show ?thesis using q by (auto simp: io_exclusive_def s')
  next
    case False
    with c idle have ne: "m_queue_calc s \<noteq> []" and
      s': "s' = s\<lparr>m_queue_calc := tl (m_queue_calc s),
                running := (running s)(worker \<mapsto> hd (m_queue_calc s))\<rparr>"
      by (auto simp: claim_def split: if_splits)
    from inv ne have calc: "\<not> file_io (m_steps (hd (m_queue_calc s)))"
      by (auto simp: io_exclusive_def queues_sorted_def)
    have q: "queues_sorted m_steps s'"
      using inv ne by (auto simp: s' io_exclusive_def queues_sorted_def dest: list.set_sel(2))
    have same: "\<And>w. executes_io m_steps s' w = executes_io m_steps s w"
      using calc idle by (auto simp: s' executes_io_def split: option.splits)
    have "m_io_active s' = m_io_active s" by (simp add: s')
    with inv q same show ?thesis by (auto simp: io_exclusive_def)
  qed
qed

lemma release_exclusive:
  assumes inv: "io_exclusive m_steps s" and r: "release m_steps worker runnable s = Some s'"
  shows "io_exclusive m_steps s'"
proof -
  from r obtain step where step: "running s worker = Some step" and
    s': "s' = fold (queue_analytical_step m_steps) runnable
                  (s\<lparr>m_io_active := (if file_io (m_steps step) then False else m_io_active s),
                     running := (running s)(worker := None)\<rparr>)"
    by (auto simp: release_def split: option.splits)
  let ?t = "s\<lparr>m_io_active := (if file_io (m_steps step) then False else m_io_active s),
                     running := (running s)(worker := None)\<rparr>"
  have q: "queues_sorted m_steps s'"
    unfolding s' using inv by (intro fold_queue_keeps) (simp add: io_exclusive_def queues_sorted_def)
  have frame: "m_io_active s' = m_io_active ?t" "running s' = running ?t"
    unfolding s' by (simp_all add: fold_queue_frame)
  have ex: "\<And>w. executes_io m_steps s' w \<longleftrightarrow> w \<noteq> worker \<and> executes_io m_steps s w"
    by (auto simp: executes_io_def frame)
  have "\<And>w. executes_io m_steps s' w \<Longrightarrow> m_io_active s'"
  proof -
    fix w assume "executes_io m_steps s' w"
    with ex have w: "w \<noteq> worker" "executes_io m_steps s w" by auto
    have "\<not> file_io (m_steps step)"
    proof
      assume "file_io (m_steps step)"
      with step have "executes_io m_steps s worker" by (simp add: executes_io_def)
      with inv w show False by (auto simp: io_exclusive_def)
    qed
    moreover from inv w have "m_io_active s" by (auto simp: io_exclusive_def)
    ultimately show "m_io_active s'" by (simp add: frame)
  qed
  moreover have "\<And>w1 w2. executes_io m_steps s' w1 \<Longrightarrow> executes_io m_steps s' w2 \<Longrightarrow> w1 = w2"
    using inv ex by (auto simp: io_exclusive_def)
  ultimately show ?thesis using q by (auto simp: io_exclusive_def)
qed

lemma do_run_exclusive:
  "io_exclusive m_steps s \<Longrightarrow> do_run m_steps moves s = Some s' \<Longrightarrow> io_exclusive m_steps s'"
proof (induction moves arbitrary: s)
  case Nil
  then show ?case by simp
next
  case (Cons m moves)
  show ?case
  proof (cases m)
    case (Claim worker)
    with Cons.prems obtain t where t: "claim worker s = Some t" "do_run m_steps moves t = Some s'"
      by (auto split: option.splits)
    from Cons.IH [OF claim_exclusive [OF Cons.prems(1) t(1)] t(2)] show ?thesis .
  next
    case (Release worker runnable)
    with Cons.prems obtain t where
      t: "release m_steps worker runnable s = Some t" "do_run m_steps moves t = Some s'"
      by (auto split: option.splits)
    from Cons.IH [OF release_exclusive [OF Cons.prems(1) t(1)] t(2)] show ?thesis .
  qed
qed

text \<open>
  Claim C6. In every state the workers reach from the start of a run, whatever the
  order of their moves, at most one worker executes a step whose \<^verbatim>\<open>file_io\<close> is
  true: two workers that both execute an IO step are the same worker. Steps that are not
  IO are claimed whether or not the flag is set, so they overlap with each other and
  with the IO step.
\<close>

theorem at_most_one_io_worker:
  assumes "do_run m_steps moves (scheduler_start m_steps) = Some s"
    and "executes_io m_steps s w1" and "executes_io m_steps s w2"
  shows "w1 = w2"
  using do_run_exclusive [OF scheduler_start_exclusive assms(1)] assms(2,3)
  by (auto simp: io_exclusive_def)

lemma example_file_io:
  "file_io (example_steps 0) = False" "file_io (example_steps (Suc 0)) = True"
  "file_io (example_steps 2) = True" "file_io (example_steps 3) = False"
  by (simp_all add: example_steps_def analytical_step_ctor_def analytical_step_ctor_default_def file_io_def)

text \<open>
  C6, witness: in the example worker 1 claims the IO step 1; worker 2 finds the flag
  set, leaves the IO step 2 in its queue and claims step 3; worker 3 claims the source.
  The three execute at once, one of them an IO step.
\<close>

theorem at_most_one_io_worker_witness:
  "\<exists>s. do_run example_steps example_moves (scheduler_start example_steps) = Some s \<and>
       running s 1 = Some 1 \<and> running s 2 = Some 3 \<and> running s 3 = Some 0 \<and>
       m_queue_io s = [2] \<and> m_queue_calc s = [] \<and> m_io_active s \<and>
       executes_io example_steps s 1 \<and> \<not> executes_io example_steps s 2 \<and>
       \<not> executes_io example_steps s 3"
proof -
  obtain s where run: "do_run example_steps example_moves (scheduler_start example_steps) = Some s"
    and st: "running s 1 = Some 1" "running s 2 = Some 3" "running s 3 = Some 0"
      "m_queue_io s = [2]" "m_queue_calc s = []" "m_io_active s"
    by (simp add: example_moves_def scheduler_start_def queue_analytical_step_def claim_def
        release_def example_file_io)
  have io: "executes_io example_steps s 1"
    using st by (simp add: executes_io_def example_file_io)
  have "\<not> executes_io example_steps s 2" "\<not> executes_io example_steps s 3"
    using at_most_one_io_worker [OF run io, of 2] at_most_one_io_worker [OF run io, of 3]
    by auto
  with run st io show ?thesis by blast
qed

section \<open>Properties of the input buffer of an ordered step\<close>

lemma insert_chunk_keyed:
  "buffer_keyed st \<Longrightarrow> insert_chunk chunk st = Inr st' \<Longrightarrow>
   buffer_keyed st' \<and> next_expected_seq st' = next_expected_seq st"
  by (auto simp: buffer_keyed_def insert_chunk_def split: option.splits if_splits)

lemma consume_chunk_keyed:
  "buffer_keyed st \<Longrightarrow> consume_chunk st = Inr (chunk, expected, st') \<Longrightarrow>
   buffer_keyed st' \<and> next_expected_seq st' = Suc (next_expected_seq st) \<and>
   expected = next_expected_seq st \<and> seq chunk = next_expected_seq st"
  by (auto simp: buffer_keyed_def consume_chunk_def split: option.splits if_splits)

lemma ordered_step_run_log:
  "buffer_keyed st \<Longrightarrow> ordered_step_run evs (consumed, st) = Inr (consumed', st') \<Longrightarrow>
   \<exists>new. consumed' = consumed @ new \<and>
     map (seq \<circ> fst) new = [next_expected_seq st ..< next_expected_seq st + length new] \<and>
     map snd new = [next_expected_seq st ..< next_expected_seq st + length new] \<and>
     next_expected_seq st' = next_expected_seq st + length new \<and> buffer_keyed st'"
proof (induction evs arbitrary: consumed st)
  case Nil
  then show ?case by simp
next
  case (Cons ev evs)
  show ?case
  proof (cases ev)
    case (Arrive chunk)
    with Cons.prems(2) obtain st1 where
      one: "insert_chunk chunk st = Inr st1" and
      rest: "ordered_step_run evs (consumed, st1) = Inr (consumed', st')"
      by (auto split: sum.splits)
    from insert_chunk_keyed [OF Cons.prems(1) one] Cons.IH [OF _ rest] show ?thesis by auto
  next
    case Dispatch
    with Cons.prems(2) obtain chunk expected st1 where
      one: "consume_chunk st = Inr (chunk, expected, st1)" and
      rest: "ordered_step_run evs (consumed @ [(chunk, expected)], st1) = Inr (consumed', st')"
      by (auto split: sum.splits)
    from consume_chunk_keyed [OF Cons.prems(1) one] have
      k: "buffer_keyed st1" and n: "next_expected_seq st1 = Suc (next_expected_seq st)" and
      e: "expected = next_expected_seq st" "seq chunk = next_expected_seq st"
      by simp_all
    from Cons.IH [OF k rest] obtain new where new:
      "consumed' = (consumed @ [(chunk, expected)]) @ new"
      "map (seq \<circ> fst) new = [next_expected_seq st1 ..< next_expected_seq st1 + length new]"
      "map snd new = [next_expected_seq st1 ..< next_expected_seq st1 + length new]"
      "next_expected_seq st' = next_expected_seq st1 + length new" "buffer_keyed st'"
      by blast
    have upt: "[next_expected_seq st ..< next_expected_seq st + Suc (length new)] =
        next_expected_seq st # [Suc (next_expected_seq st) ..< Suc (next_expected_seq st) + length new]"
      using upt_conv_Cons [of "next_expected_seq st" "Suc (next_expected_seq st) + length new"]
      by (simp del: upt_Suc)
    have "consumed' = consumed @ ((chunk, expected) # new)" using new(1) by simp
    moreover have "map (seq \<circ> fst) ((chunk, expected) # new) =
        [next_expected_seq st ..< next_expected_seq st + length ((chunk, expected) # new)]"
      by (simp only: length_Cons upt list.map o_apply fst_conv new(2) n e)
    moreover have "map snd ((chunk, expected) # new) =
        [next_expected_seq st ..< next_expected_seq st + length ((chunk, expected) # new)]"
      by (simp only: length_Cons upt list.map snd_conv new(3) n e)
    moreover have "next_expected_seq st' = next_expected_seq st + length ((chunk, expected) # new)"
      using new(4) n by simp
    ultimately show ?thesis using new(5) by blast
  qed
qed

text \<open>
  Claim C7. An ordered step starts with nothing consumed and a buffer that holds every
  chunk under the chunk's own sequence number (an empty buffer, for one). After any
  arrivals and dispatches, the chunks handed to \<^verbatim>\<open>process\<close> carry, in the order of the
  calls, the sequence numbers \<open>n, n + 1, n + 2, ...\<close> where \<open>n\<close> is what
  \<^verbatim>\<open>next_expected_seq\<close> was at the start: each chunk's number is the value of
  \<^verbatim>\<open>next_expected_seq\<close> at the moment it was popped, a chunk consumed directly before
  another has the number one below it, and of any two consumed chunks the earlier has
  the smaller number. A run that fails has consumed, up to the failure, what the run of
  its events before the failure consumed, and that run is covered.
\<close>

theorem ordered_step_consumes_in_sequence:
  assumes "ordered_step_run evs ([], st0) = Inr (consumed, st)"
    and "\<forall>k chunk. input_buffer st0 k = Some chunk \<longrightarrow> seq chunk = k"
  shows "map (seq \<circ> fst) consumed = [next_expected_seq st0 ..< next_expected_seq st0 + length consumed] \<and>
         (\<forall>i < length consumed. seq (fst (consumed ! i)) = snd (consumed ! i)) \<and>
         (\<forall>i. Suc i < length consumed \<longrightarrow>
            seq (fst (consumed ! i)) + 1 = seq (fst (consumed ! Suc i))) \<and>
         (\<forall>i j. i < j \<and> j < length consumed \<longrightarrow>
            seq (fst (consumed ! i)) < seq (fst (consumed ! j))) \<and>
         next_expected_seq st = next_expected_seq st0 + length consumed"
proof -
  have k: "buffer_keyed st0" using assms(2) by (simp add: buffer_keyed_def)
  from ordered_step_run_log [OF k assms(1)] have
    a: "map (seq \<circ> fst) consumed = [next_expected_seq st0 ..< next_expected_seq st0 + length consumed]"
    and b: "map snd consumed = [next_expected_seq st0 ..< next_expected_seq st0 + length consumed]"
    and c: "next_expected_seq st = next_expected_seq st0 + length consumed"
    by auto
  have nth: "\<And>i. i < length consumed \<Longrightarrow> seq (fst (consumed ! i)) = next_expected_seq st0 + i"
  proof -
    fix i assume i: "i < length consumed"
    then have "seq (fst (consumed ! i)) = map (seq \<circ> fst) consumed ! i" by simp
    also have "\<dots> = next_expected_seq st0 + i" using i by (simp only: a nth_upt)
    finally show "seq (fst (consumed ! i)) = next_expected_seq st0 + i" .
  qed
  have nth': "\<And>i. i < length consumed \<Longrightarrow> snd (consumed ! i) = next_expected_seq st0 + i"
  proof -
    fix i assume i: "i < length consumed"
    then have "snd (consumed ! i) = map snd consumed ! i" by simp
    also have "\<dots> = next_expected_seq st0 + i" using i by (simp only: b nth_upt)
    finally show "snd (consumed ! i) = next_expected_seq st0 + i" .
  qed
  show ?thesis using a c nth nth' by auto
qed

text \<open>
  C7, witness: chunk 1 arrives before chunk 0; the step consumes 0, then 1, then 2.
\<close>

theorem ordered_step_consumes_in_sequence_witness:
  "\<exists>st. ordered_step_run
          [Arrive \<lparr>seq = 1, data = 11\<rparr>, Arrive \<lparr>seq = 0, data = 10\<rparr>, Dispatch,
           Arrive \<lparr>seq = 2, data = 12\<rparr>, Dispatch, Dispatch]
          ([], scheduler_step_start)
        = Inr ([(\<lparr>seq = 0, data = 10\<rparr>, 0), (\<lparr>seq = 1, data = 11\<rparr>, 1),
                (\<lparr>seq = 2, data = 12\<rparr>, 2)], st)
      \<and> next_expected_seq st = 3"
proof -
  obtain st where run: "ordered_step_run
          [Arrive \<lparr>seq = 1, data = 11\<rparr>, Arrive \<lparr>seq = 0, data = 10\<rparr>, Dispatch,
           Arrive \<lparr>seq = 2, data = 12\<rparr>, Dispatch, Dispatch]
          ([], scheduler_step_start)
        = Inr ([(\<lparr>seq = 0, data = 10\<rparr>, 0), (\<lparr>seq = 1, data = 11\<rparr>, 1),
                (\<lparr>seq = 2, data = 12\<rparr>, 2)], st)"
    by (simp add: scheduler_step_start_def insert_chunk_def consume_chunk_def)
  have keyed: "\<forall>k chunk. input_buffer scheduler_step_start k = Some chunk \<longrightarrow> seq chunk = k"
    by (simp add: scheduler_step_start_def)
  from ordered_step_consumes_in_sequence [OF run keyed]
  have "next_expected_seq st = 3" by (simp add: scheduler_step_start_def)
  with run show ?thesis by blast
qed

end
